theory Spec2Isabelle
  imports Complex_Main "HOL-Library.Word" "HOL-Library.Log_Nat"
begin

section \<open>bw: bandwidth measurement (cmd/bw.go)\<close>

subsection \<open>Unit Scaler: \<open>descs\<close>, \<open>reducer\<close>, \<open>getUnits\<close>\<close>

text \<open>
  \<^verbatim>\<open>const ( nextStep = 1024 )\<close> and the label list \<^verbatim>\<open>descs\<close> (bw.go, lines 17-37).
\<close>

definition nextStep :: int where
  "nextStep = 1024"

definition descs :: "string list" where
  "descs = [''B'', ''KB'', ''MB'', ''GB'', ''TB'', ''PB'']"

text \<open>
  \<^verbatim>\<open>type unit struct { count float64; desc string }\<close>. The record is named
  \<open>unit_t\<close> because \<open>unit\<close> is a type of HOL.

  Every \<^verbatim>\<open>float64\<close> the scaler handles is the conversion of an \<^verbatim>\<open>int64\<close> divided by
  \<open>1024\<close> a few times. Dividing a binary floating-point number by a power of two only
  lowers its exponent, and no value here is small enough to underflow (a value is divided
  only when it is at least 1024), so the divisions and the comparison with 1024 are exact:
  the field \<open>count\<close> is the rational number the \<^verbatim>\<open>float64\<close> denotes. The only rounding
  is the conversion \<^verbatim>\<open>float64(count)\<close>, which \<open>float64\<close> below writes out.
\<close>

record unit_t =
  count :: rat
  desc :: string

datatype panic = IndexOutOfRange

text \<open>
  \<^verbatim>\<open>float64(count)\<close> for an integer: the nearest number with a 53-bit significand, ties
  to the even significand (IEEE 754 round-to-nearest-even, which Go's conversion uses).
  \<open>sh\<close> is the number of low bits that do not fit, \<open>q\<close> the kept bits, \<open>r\<close> the dropped
  ones. The result is an integer again.
\<close>

definition float64 :: "int \<Rightarrow> int" where
  "float64 c =
     (let a = \<bar>c\<bar>;
          sh = nat (bitlen a - 53);
          q = a div 2 ^ sh;
          r = a mod 2 ^ sh;
          up = (2 ^ sh < 2 * r \<or> (2 * r = 2 ^ sh \<and> odd q))
      in sgn c * ((if up then q + 1 else q) * 2 ^ sh))"

text \<open>
  \<^verbatim>\<open>descs[descIdx]\<close>: Go panics with "index out of range" when the index is not below
  the length of the slice.
\<close>

definition descs_at :: "nat \<Rightarrow> panic + string" where
  "descs_at descIdx = (if descIdx < length descs then Inr (descs ! descIdx) else Inl IndexOutOfRange)"

text \<open>
  \<^verbatim>\<open>
  func reducer(remCount float64, descIdx int) unit {
      if remCount < float64(nextStep) {
          // Not checking for descIdx < descs here because anything
          // greater than PB/s is _really_ unlikely.
          return unit{ count: remCount, desc: descs[descIdx] }
      }
      descIdx += 1
      return reducer(remCount/nextStep, descIdx)
  }
  \<close>
  \<open>descIdx\<close> starts at 0 and is only incremented, so it is a \<open>nat\<close>.
\<close>

function reducer :: "rat \<Rightarrow> nat \<Rightarrow> panic + unit_t" where
  "reducer remCount descIdx =
     (if remCount < of_int nextStep then
        (case descs_at descIdx of
           Inl e \<Rightarrow> Inl e
         | Inr d \<Rightarrow> Inr \<lparr>count = remCount, desc = d\<rparr>)
      else reducer (remCount / of_int nextStep) (descIdx + 1))"
  by pat_completeness auto
termination
proof (relation "measure (\<lambda>(remCount, descIdx). nat \<lfloor>remCount\<rfloor>)")
  show "wf (measure (\<lambda>(remCount, descIdx). nat \<lfloor>remCount\<rfloor>))"
    by simp
next
  fix remCount :: rat and descIdx :: nat
  assume "\<not> remCount < of_int nextStep"
  then have ge: "1024 \<le> remCount"
    by (simp add: nextStep_def)
  have "remCount / 1024 \<le> remCount - 1"
    using ge by simp
  then have "\<lfloor>remCount / 1024\<rfloor> \<le> \<lfloor>remCount - 1\<rfloor>"
    by (rule floor_mono)
  then have "\<lfloor>remCount / 1024\<rfloor> < \<lfloor>remCount\<rfloor>"
    by simp
  moreover have "0 < \<lfloor>remCount\<rfloor>"
    using ge by linarith
  ultimately show "((remCount / of_int nextStep, descIdx + 1), (remCount, descIdx))
      \<in> measure (\<lambda>(remCount, descIdx). nat \<lfloor>remCount\<rfloor>)"
    by (simp add: nextStep_def)
qed

declare reducer.simps [simp del]

text \<open>
  \<^verbatim>\<open>func getUnits(count int64) unit { return reducer(float64(count), 0) }\<close>
\<close>

definition getUnits :: "64 word \<Rightarrow> panic + unit_t" where
  "getUnits cnt = reducer (of_int (float64 (sint cnt))) 0"

subsection \<open>The byte source and \<open>io.CopyN\<close>\<close>

text \<open>
  \<^verbatim>\<open>src io.Reader\<close>: the source is what its successive \<^verbatim>\<open>Read\<close> calls deliver, the
  sizes \<open>chunks\<close>, and the error it returns once they are used up, \<open>ending\<close>
  (\<^verbatim>\<open>io.EOF\<close> for a clean end of stream, any other error otherwise). The payload is
  discarded by the program and is not modelled.
\<close>

datatype ioerr = EOF | ReadFailure

record source =
  chunks :: "nat list"
  ending :: ioerr

text \<open>
  \<^verbatim>\<open>io.CopyN(dst, src, n)\<close> belongs to Go's standard library. Its documentation: "CopyN
  copies n bytes (or until an error) from src to dst. It returns the number of bytes
  copied and the earliest error encountered while copying. On return, written == n if and
  only if err == nil." \<open>take_bytes\<close> reads until \<open>n\<close> bytes are taken or the source is
  used up; bytes of a chunk beyond \<open>n\<close> stay in the (buffered) source.
\<close>

fun take_bytes :: "nat \<Rightarrow> nat list \<Rightarrow> nat \<times> nat list" where
  "take_bytes n [] = (0, [])"
| "take_bytes n (c # cs) =
     (if n = 0 then (0, c # cs)
      else if c \<le> n then (let (w, rest) = take_bytes (n - c) cs in (c + w, rest))
      else (n, (c - n) # cs))"

definition CopyN :: "nat \<Rightarrow> source \<Rightarrow> nat \<times> ioerr option \<times> source" where
  "CopyN n src =
     (let (written, rest) = take_bytes n (chunks src)
      in (written, (if written = n then None else Some (ending src)), src\<lparr>chunks := rest\<rparr>))"

subsection \<open>Stream Reader: the chunk size of \<open>ReadData\<close>\<close>

text \<open>
  \<^verbatim>\<open>
  bufSize := nextStep * nextStep * int64(r)
  bufSize = 409500
  \<close>
  (bw.go, lines 157-158; \<open>r\<close> is the chunk-size hint \<^verbatim>\<open>mb\<close>.)
\<close>

definition bufSize :: "64 word \<Rightarrow> 64 word" where
  "bufSize r = (let b = word_of_int nextStep * word_of_int nextStep * r; b = 409500 in b)"

subsection \<open>Bandwidth Aggregator: the state and the bodies of the \<open>select\<close> cases\<close>

text \<open>
  \<^verbatim>\<open>var total int64\<close> and \<^verbatim>\<open>var prevSecond int64\<close> of \<^verbatim>\<open>CalculateBandwidth\<close>
  (the spec's RunState, \<open>prevSecond\<close> being its \<open>windowCount\<close>). They are 64-bit
  integers: \<open>+\<close> wraps around. The start time and the elapsed time are real time and are
  not modelled; an output line is recorded by the scaled values it prints.
\<close>

record RunState =
  total :: "64 word"
  prevSecond :: "64 word"

datatype out =
    TickLine unit_t unit_t
  | Summary unit_t

datatype event = ByteCount "64 word" | TickEv

text \<open>
  \<^verbatim>\<open>case n := <-bRead: total += n; prevSecond += n\<close> (lines 184-186).
\<close>

definition onByteCount :: "64 word \<Rightarrow> RunState \<Rightarrow> RunState" where
  "onByteCount n st =
     (let st = st\<lparr>total := total st + n\<rparr>;
          st = st\<lparr>prevSecond := prevSecond st + n\<rparr>
      in st)"

text \<open>
  \<^verbatim>\<open>
  case _ = <-ticker.C:
      elapsed := time.Since(start)
      prevDesc := getUnits(prevSecond)
      totalDesc := getUnits(total)
      avg := totalDesc.count / elapsed.Seconds()
      fmt.Printf("\rcurrent: %.0f %v/s\t", prevDesc.count, prevDesc.desc)
      fmt.Printf("average: %.4f %v/s", avg, totalDesc.desc)
      prevSecond = 0
  \<close>
  A panic of \<open>getUnits\<close> ends the handler (and the program).
\<close>

definition onTick :: "RunState \<Rightarrow> panic + (out \<times> RunState)" where
  "onTick st =
     (case getUnits (prevSecond st) of
        Inl e \<Rightarrow> Inl e
      | Inr prevDesc \<Rightarrow>
          (case getUnits (total st) of
             Inl e \<Rightarrow> Inl e
           | Inr totalDesc \<Rightarrow> Inr (TickLine prevDesc totalDesc, st\<lparr>prevSecond := 0\<rparr>)))"

text \<open>
  The \<^verbatim>\<open>for { select { ... } }\<close> loop of the inner goroutine (lines 181-197), as a
  function of the events it takes, one after the other, each handled to its end before
  the next. The loop itself never returns; \<open>select_loop\<close> gives the state after a finite
  sequence of events.
\<close>

fun select_loop :: "event list \<Rightarrow> RunState \<times> out list \<Rightarrow> panic + (RunState \<times> out list)" where
  "select_loop [] (st, outs) = Inr (st, outs)"
| "select_loop (ByteCount n # evs) (st, outs) = select_loop evs (onByteCount n st, outs)"
| "select_loop (TickEv # evs) (st, outs) =
     (case onTick st of
        Inl e \<Rightarrow> Inl e
      | Inr (line, st') \<Rightarrow> select_loop evs (st', outs @ [line]))"

fun byteCounts :: "event list \<Rightarrow> 64 word list" where
  "byteCounts [] = []"
| "byteCounts (ByteCount n # evs) = n # byteCounts evs"
| "byteCounts (TickEv # evs) = byteCounts evs"

subsection \<open>The running program: goroutines of \<open>main\<close>, interleaved\<close>

text \<open>
  After the configuration is read, \<^verbatim>\<open>main\<close> (lines 110-133) runs four goroutines:
  \<^item> the signal handler \<^verbatim>\<open>go func() { <-sigs; cancel() }()\<close>;
  \<^item> \<^verbatim>\<open>go CalculateBandwidth(ctx, readCounter)\<close>, which starts
  \<^item> the inner goroutine with the \<^verbatim>\<open>select\<close> loop, and then waits for \<^verbatim>\<open>ctx.Done()\<close>;
  \<^item> the main goroutine itself, which calls \<^verbatim>\<open>ReadData\<close> and then \<^verbatim>\<open>os.Exit(0)\<close>.

  Each goroutine has a program point; a step executes the statement at that point. The
  Go scheduler may run the goroutines in any order, so an execution is a list of
  \<open>action\<close>s saying who moves next; a step that is blocked is \<open>None\<close>.
\<close>

text \<open>
  Program points of the main goroutine: in \<^verbatim>\<open>ReadData\<close>, at the \<^verbatim>\<open>select\<close> (line 153),
  in the \<^verbatim>\<open>default\<close> case before \<^verbatim>\<open>io.CopyN\<close> (line 157), at the send
  \<^verbatim>\<open>bRead <- int64(n)\<close> (line 163), returned with \<^verbatim>\<open>err\<close> (lines 155, 161); then in
  \<^verbatim>\<open>main\<close> at \<^verbatim>\<open><-ctx.Done()\<close> (line 129) and before \<^verbatim>\<open>os.Exit(0)\<close> (line 132).
\<close>

datatype mainpc =
    R_select
  | R_copy
  | R_send "64 word"
  | R_ret "ioerr option"
  | M_wait
  | M_exit

text \<open>
  Program points of \<^verbatim>\<open>CalculateBandwidth\<close>: not yet run (line 175), at
  \<^verbatim>\<open><-ctx.Done()\<close> (line 199), before \<^verbatim>\<open>totalDesc := getUnits(total)\<close> (line 201),
  before the \<^verbatim>\<open>Printf\<close> of the summary (line 202), returned.
\<close>

datatype outerpc =
    O_start
  | O_wait
  | O_final
  | O_print unit_t
  | O_ret

text \<open>
  Program points of the inner goroutine: not started, at the \<^verbatim>\<open>select\<close> (line 183),
  before \<^verbatim>\<open>total += n\<close> (line 185), before \<^verbatim>\<open>prevSecond += n\<close> (line 186), and in
  the tick case before \<^verbatim>\<open>getUnits(prevSecond)\<close> (line 189), before
  \<^verbatim>\<open>getUnits(total)\<close> (line 190), before the two \<^verbatim>\<open>Printf\<close> (lines 192-193), before
  \<^verbatim>\<open>prevSecond = 0\<close> (line 194).
\<close>

datatype innerpc =
    I_none
  | I_select
  | I_add1 "64 word"
  | I_add2 "64 word"
  | I_tick1
  | I_tick2 unit_t
  | I_tick3 unit_t unit_t
  | I_tick4

datatype sigpc = S_wait | S_done

text \<open>
  \<open>sigs\<close> is the buffered channel of \<^verbatim>\<open>signal.Notify\<close> (true: it holds a signal);
  \<open>ctxDone\<close> is the cancellation of \<^verbatim>\<open>ctx\<close>. \<open>requests\<close> and \<open>received\<close> are
  history variables: the sizes passed to \<^verbatim>\<open>io.CopyN\<close> and the values taken from
  \<^verbatim>\<open>bRead\<close>, in order.
\<close>

record sys =
  input :: source
  mb :: "64 word"
  ctxDone :: bool
  sigs :: bool
  mainPc :: mainpc
  sigPc :: sigpc
  outerPc :: outerpc
  innerPc :: innerpc
  vars :: RunState
  tickerStopped :: bool
  stdout :: "out list"
  exited :: bool
  crashed :: bool
  requests :: "64 word list"
  received :: "64 word list"

datatype action =
    OsSignal
  | SigHandler
  | Main
  | Handoff
  | Tick
  | Inner
  | Outer

definition init :: "source \<Rightarrow> 64 word \<Rightarrow> sys" where
  "init src r =
     \<lparr>input = src, mb = r, ctxDone = False, sigs = False,
      mainPc = R_select, sigPc = S_wait, outerPc = O_start, innerPc = I_none,
      vars = \<lparr>total = 0, prevSecond = 0\<rparr>, tickerStopped = False, stdout = [],
      exited = False, crashed = False, requests = [], received = []\<rparr>"

text \<open>
  The main goroutine: \<^verbatim>\<open>ReadData\<close> (lines 152-165) and lines 128-132 of \<^verbatim>\<open>main\<close>.
  \<^verbatim>\<open>
  for {
      select {
      case <-ctx.Done():
          return nil
      default:
          bufSize := nextStep * nextStep * int64(r)
          bufSize = 409500
          n, err := io.CopyN(rw, rw, bufSize)
          if err != nil {
              return err
          }
          bRead <- int64(n)
      }
  }
  ...
  if err := ReadData(ctx, readCounter, src, mb); err != nil {
      <-ctx.Done()
  }
  os.Exit(0)
  \<close>
  The send on the unbuffered channel is the step \<open>Handoff\<close> below.
\<close>

definition main_step :: "sys \<Rightarrow> sys option" where
  "main_step s =
     (case mainPc s of
        R_select \<Rightarrow>
          (if ctxDone s then Some (s\<lparr>mainPc := R_ret None\<rparr>)
           else Some (s\<lparr>mainPc := R_copy\<rparr>))
      | R_copy \<Rightarrow>
          (let b = bufSize (mb s);
               (n, err, src') = CopyN (nat (sint b)) (input s);
               s' = s\<lparr>input := src', requests := requests s @ [b]\<rparr>
           in (case err of
                 Some e \<Rightarrow> Some (s'\<lparr>mainPc := R_ret (Some e)\<rparr>)
               | None \<Rightarrow> Some (s'\<lparr>mainPc := R_send (of_nat n)\<rparr>)))
      | R_send n \<Rightarrow> None
      | R_ret err \<Rightarrow>
          (case err of
             Some e \<Rightarrow> Some (s\<lparr>mainPc := M_wait\<rparr>)
           | None \<Rightarrow> Some (s\<lparr>mainPc := M_exit\<rparr>))
      | M_wait \<Rightarrow> (if ctxDone s then Some (s\<lparr>mainPc := M_exit\<rparr>) else None)
      | M_exit \<Rightarrow> Some (s\<lparr>exited := True\<rparr>))"

text \<open>
  The inner goroutine, one statement of a \<^verbatim>\<open>select\<close> case per step (lines 184-194).
  Taking a value or a tick is the step \<open>Handoff\<close> or \<open>Tick\<close> below.
\<close>

definition inner_step :: "sys \<Rightarrow> sys option" where
  "inner_step s =
     (case innerPc s of
        I_none \<Rightarrow> None
      | I_select \<Rightarrow> None
      | I_add1 n \<Rightarrow>
          Some (s\<lparr>vars := (vars s)\<lparr>total := total (vars s) + n\<rparr>, innerPc := I_add2 n\<rparr>)
      | I_add2 n \<Rightarrow>
          Some (s\<lparr>vars := (vars s)\<lparr>prevSecond := prevSecond (vars s) + n\<rparr>, innerPc := I_select\<rparr>)
      | I_tick1 \<Rightarrow>
          (case getUnits (prevSecond (vars s)) of
             Inl e \<Rightarrow> Some (s\<lparr>crashed := True\<rparr>)
           | Inr prevDesc \<Rightarrow> Some (s\<lparr>innerPc := I_tick2 prevDesc\<rparr>))
      | I_tick2 prevDesc \<Rightarrow>
          (case getUnits (total (vars s)) of
             Inl e \<Rightarrow> Some (s\<lparr>crashed := True\<rparr>)
           | Inr totalDesc \<Rightarrow> Some (s\<lparr>innerPc := I_tick3 prevDesc totalDesc\<rparr>))
      | I_tick3 prevDesc totalDesc \<Rightarrow>
          Some (s\<lparr>stdout := stdout s @ [TickLine prevDesc totalDesc], innerPc := I_tick4\<rparr>)
      | I_tick4 \<Rightarrow>
          Some (s\<lparr>vars := (vars s)\<lparr>prevSecond := 0\<rparr>, innerPc := I_select\<rparr>))"

text \<open>
  \<^verbatim>\<open>CalculateBandwidth\<close> itself (lines 175-180 and 199-206):
  \<^verbatim>\<open>
  var total int64
  var prevSecond int64
  start := time.Now()
  ticker := time.NewTicker(1 * time.Second)
  defer ticker.Stop()
  go func() { ... }()
  <-ctx.Done()
  elapsed := time.Since(start)
  totalDesc := getUnits(total)
  fmt.Printf("\ntotal bytes read in %.2f seconds: %.0f %v\n", elapsed.Seconds(), totalDesc.count, totalDesc.desc)
  return
  \<close>
\<close>

definition outer_step :: "sys \<Rightarrow> sys option" where
  "outer_step s =
     (case outerPc s of
        O_start \<Rightarrow>
          Some (s\<lparr>vars := \<lparr>total = 0, prevSecond = 0\<rparr>, innerPc := I_select, outerPc := O_wait\<rparr>)
      | O_wait \<Rightarrow> (if ctxDone s then Some (s\<lparr>outerPc := O_final\<rparr>) else None)
      | O_final \<Rightarrow>
          (case getUnits (total (vars s)) of
             Inl e \<Rightarrow> Some (s\<lparr>crashed := True\<rparr>)
           | Inr totalDesc \<Rightarrow> Some (s\<lparr>outerPc := O_print totalDesc\<rparr>))
      | O_print totalDesc \<Rightarrow>
          Some (s\<lparr>stdout := stdout s @ [Summary totalDesc], outerPc := O_ret, tickerStopped := True\<rparr>)
      | O_ret \<Rightarrow> None)"

text \<open>
  One step of the program. Nothing runs after \<^verbatim>\<open>os.Exit\<close> or after a panic.
  \<^item> \<open>OsSignal\<close>: the operating system delivers SIGINT or SIGTERM into \<open>sigs\<close>.
  \<^item> \<open>SigHandler\<close>: \<^verbatim>\<open><-sigs; cancel()\<close> (lines 122-123).
  \<^item> \<open>Handoff\<close>: the send of line 163 meets the receive of line 184 (the channel is
    unbuffered, so both goroutines must be there).
  \<^item> \<open>Tick\<close>: the ticker fires and the \<^verbatim>\<open>select\<close> takes the case of line 187.
\<close>

definition step :: "action \<Rightarrow> sys \<Rightarrow> sys option" where
  "step a s =
     (if exited s \<or> crashed s then None
      else (case a of
        OsSignal \<Rightarrow> Some (s\<lparr>sigs := True\<rparr>)
      | SigHandler \<Rightarrow>
          (if sigPc s = S_wait \<and> sigs s
           then Some (s\<lparr>sigs := False, sigPc := S_done, ctxDone := True\<rparr>)
           else None)
      | Main \<Rightarrow> main_step s
      | Handoff \<Rightarrow>
          (case (mainPc s, innerPc s) of
             (R_send n, I_select) \<Rightarrow>
               Some (s\<lparr>mainPc := R_select, innerPc := I_add1 n, received := received s @ [n]\<rparr>)
           | _ \<Rightarrow> None)
      | Tick \<Rightarrow>
          (if innerPc s = I_select \<and> \<not> tickerStopped s then Some (s\<lparr>innerPc := I_tick1\<rparr>)
           else None)
      | Inner \<Rightarrow> inner_step s
      | Outer \<Rightarrow> outer_step s))"

fun exec :: "action list \<Rightarrow> sys \<Rightarrow> sys option" where
  "exec [] s = Some s"
| "exec (a # as) s = (case step a s of None \<Rightarrow> None | Some s' \<Rightarrow> exec as s')"

text \<open>
  The sections in which an event's handling reads or writes \<open>total\<close> and
  \<open>prevSecond\<close>: a value from \<^verbatim>\<open>bRead\<close> (lines 185-186), a tick (lines 188-194), the
  final summary after the cancellation (lines 200-205).
\<close>

definition in_byteCount :: "sys \<Rightarrow> bool" where
  "in_byteCount s = (case innerPc s of I_add1 n \<Rightarrow> True | I_add2 n \<Rightarrow> True | _ \<Rightarrow> False)"

definition in_tick :: "sys \<Rightarrow> bool" where
  "in_tick s =
     (case innerPc s of
        I_tick1 \<Rightarrow> True | I_tick2 p \<Rightarrow> True | I_tick3 p t \<Rightarrow> True | I_tick4 \<Rightarrow> True
      | _ \<Rightarrow> False)"

definition in_final :: "sys \<Rightarrow> bool" where
  "in_final s = (case outerPc s of O_final \<Rightarrow> True | O_print t \<Rightarrow> True | _ \<Rightarrow> False)"

text \<open>
  The value the inner goroutine has taken from \<^verbatim>\<open>bRead\<close> and not yet added to
  \<open>total\<close> (it stands before line 185); used to state how \<open>total\<close> follows \<open>received\<close>.
\<close>

fun pending :: "innerpc \<Rightarrow> 64 word" where
  "pending (I_add1 n) = n"
| "pending pc = 0"

fun is_Summary :: "out \<Rightarrow> bool" where
  "is_Summary (Summary t) = True"
| "is_Summary (TickLine p t) = False"

section \<open>Properties of the Unit Scaler\<close>

subsection \<open>The recursion of \<open>reducer\<close>\<close>

lemma descs_at_lt: "i < 6 \<Longrightarrow> descs_at i = Inr (descs ! i)"
  by (simp add: descs_at_def descs_def)

lemma descs_at_ge: "6 \<le> i \<Longrightarrow> descs_at i = Inl IndexOutOfRange"
  by (simp add: descs_at_def descs_def)

lemma reducer_stop:
  "x < 1024 \<Longrightarrow> reducer x i =
     (case descs_at i of Inl e \<Rightarrow> Inl e | Inr d \<Rightarrow> Inr \<lparr>count = x, desc = d\<rparr>)"
  by (subst reducer.simps) (simp add: nextStep_def)

lemma reducer_go:
  "1024 \<le> x \<Longrightarrow> reducer x i = reducer (x / 1024) (i + 1)"
  by (subst reducer.simps) (simp add: nextStep_def)

lemma reducer_in_range:
  "0 \<le> x \<Longrightarrow> i < 6 \<Longrightarrow> x < 1024 ^ (6 - i) \<Longrightarrow>
   \<exists>k. i + k < 6 \<and> reducer x i = Inr \<lparr>count = x / 1024 ^ k, desc = descs ! (i + k)\<rparr>
       \<and> 0 \<le> x / 1024 ^ k \<and> x / 1024 ^ k < 1024"
proof (induction x i rule: reducer.induct)
  case (1 x i)
  show ?case
  proof (cases "x < 1024")
    case True
    with "1.prems" have "i + 0 < 6 \<and> reducer x i = Inr \<lparr>count = x / 1024 ^ 0, desc = descs ! (i + 0)\<rparr>
       \<and> 0 \<le> x / 1024 ^ 0 \<and> x / 1024 ^ 0 < 1024"
      by (simp add: reducer_stop descs_at_lt)
    then show ?thesis by blast
  next
    case False
    then have ge: "1024 \<le> x" by simp
    have i5: "i < 5"
    proof (rule ccontr)
      assume "\<not> i < 5"
      with "1.prems" have "i = 5" by simp
      with "1.prems" ge show False by simp
    qed
    then have e: "6 - i = Suc (6 - (i + 1))" by simp
    have "x < 1024 * 1024 ^ (6 - (i + 1))"
      using "1.prems"(3) unfolding e by simp
    then have lt: "x / 1024 < 1024 ^ (6 - (i + 1))"
      by (simp add: divide_less_eq mult.commute)
    have nn: "0 \<le> x / 1024" using ge by simp
    have ns: "rat_of_int nextStep = 1024" by (simp add: nextStep_def)
    have "\<not> x < 1024" "i + 1 < 6" using ge i5 by simp_all
    from "1.IH" [unfolded ns, OF this(1) nn this(2) lt]
    obtain k where k: "i + 1 + k < 6"
      "reducer (x / 1024) (i + 1) = Inr \<lparr>count = x / 1024 / 1024 ^ k, desc = descs ! (i + 1 + k)\<rparr>"
      "0 \<le> x / 1024 / 1024 ^ k" "x / 1024 / 1024 ^ k < 1024"
      by auto
    have "i + Suc k < 6 \<and> reducer x i = Inr \<lparr>count = x / 1024 ^ Suc k, desc = descs ! (i + Suc k)\<rparr>
       \<and> 0 \<le> x / 1024 ^ Suc k \<and> x / 1024 ^ Suc k < 1024"
      using k ge by (simp add: reducer_go)
    then show ?thesis by blast
  qed
qed

lemma reducer_out_of_range:
  "0 \<le> x \<Longrightarrow> 6 \<le> i \<or> 1024 ^ (6 - i) \<le> x \<Longrightarrow> reducer x i = Inl IndexOutOfRange"
proof (induction x i rule: reducer.induct)
  case (1 x i)
  show ?case
  proof (cases "x < 1024")
    case True
    have "6 \<le> i"
    proof (rule ccontr)
      assume "\<not> 6 \<le> i"
      then have "i < 6" by simp
      with "1.prems" have "1024 ^ (6 - i) \<le> x" by simp
      moreover have "(1024::rat) ^ 1 \<le> 1024 ^ (6 - i)"
        using \<open>i < 6\<close> by (intro power_increasing) simp_all
      ultimately show False using True by simp
    qed
    then show ?thesis using True by (simp add: reducer_stop descs_at_ge)
  next
    case False
    then have ge: "1024 \<le> x" by simp
    have nn: "0 \<le> x / 1024" using ge by simp
    have c: "6 \<le> i + 1 \<or> 1024 ^ (6 - (i + 1)) \<le> x / 1024"
    proof (cases "i < 5")
      case True
      then have e: "6 - i = Suc (6 - (i + 1))" by simp
      from True "1.prems" have "1024 ^ (6 - i) \<le> x" by simp
      then have "1024 * 1024 ^ (6 - (i + 1)) \<le> x" unfolding e by simp
      then show ?thesis by (simp add: le_divide_eq mult.commute)
    next
      case False
      then show ?thesis by simp
    qed
    have ns: "rat_of_int nextStep = 1024" by (simp add: nextStep_def)
    have "reducer (x / 1024) (i + 1) = Inl IndexOutOfRange"
      by (rule "1.IH" [unfolded ns, OF False nn c])
    then show ?thesis using ge by (simp add: reducer_go)
  qed
qed

subsection \<open>The conversion \<open>float64\<close>\<close>

lemma float64_exact: "\<bar>c\<bar> < 2 ^ 53 \<Longrightarrow> float64 c = c"
proof -
  assume "\<bar>c\<bar> < 2 ^ 53"
  then have "bitlen \<bar>c\<bar> \<le> 53"
    by (simp add: bitlen_le_iff_power)
  then have "nat (bitlen \<bar>c\<bar> - 53) = 0" by simp
  then show ?thesis
    by (simp add: float64_def Let_def mult_sgn_abs)
qed

lemma float64_sign_nonneg: "0 \<le> c \<Longrightarrow> 0 \<le> float64 c"
  by (simp add: float64_def Let_def sgn_if pos_imp_zdiv_nonneg_iff)

lemma float64_sign_neg: "c < 0 \<Longrightarrow> float64 c \<le> 0"
  by (simp add: float64_def Let_def sgn_if pos_imp_zdiv_nonneg_iff)

lemma float64_pos_unfold:
  "0 \<le> a \<Longrightarrow> float64 a =
     (if 2 ^ nat (bitlen a - 53) < 2 * (a mod 2 ^ nat (bitlen a - 53)) \<or>
         (2 * (a mod 2 ^ nat (bitlen a - 53)) = 2 ^ nat (bitlen a - 53) \<and> odd (a div 2 ^ nat (bitlen a - 53)))
      then a div 2 ^ nat (bitlen a - 53) + 1 else a div 2 ^ nat (bitlen a - 53)) * 2 ^ nat (bitlen a - 53)"
  by (cases "a = 0") (simp_all add: float64_def Let_def)

lemma float64_half_ulp:
  assumes "0 \<le> a"
  shows "2 * \<bar>float64 a - a\<bar> \<le> 2 ^ nat (bitlen a - 53)"
proof -
  define p :: int where "p = 2 ^ nat (bitlen a - 53)"
  have p: "0 < p" by (simp add: p_def)
  have a: "a = (a div p) * p + a mod p" by simp
  have r: "0 \<le> a mod p" "a mod p < p" using p by simp_all
  show ?thesis
  proof (cases "p < 2 * (a mod p) \<or> (2 * (a mod p) = p \<and> odd (a div p))")
    case True
    then have "float64 a = (a div p + 1) * p"
      using assms by (simp add: float64_pos_unfold p_def)
    then have "float64 a - a = p - a mod p"
      using a by (simp add: algebra_simps)
    then show ?thesis using True r unfolding p_def [symmetric] by auto
  next
    case False
    then have "float64 a = (a div p) * p"
      using assms by (simp add: float64_pos_unfold p_def)
    then have "float64 a - a = - (a mod p)"
      using a by (simp add: algebra_simps)
    then show ?thesis using False r unfolding p_def [symmetric] by auto
  qed
qed

lemma float64_below:
  assumes "0 \<le> a" "a < 2 ^ 60 - 64"
  shows "float64 a < 2 ^ 60"
proof -
  have "bitlen a \<le> 60" using assms by (simp add: bitlen_le_iff_power)
  then have "nat (bitlen a - 53) \<le> 7" by simp
  then have "(2::int) ^ nat (bitlen a - 53) \<le> 2 ^ 7"
    by (intro power_increasing) simp_all
  with float64_half_ulp [OF assms(1)] have "2 * \<bar>float64 a - a\<bar> \<le> 128" by simp
  with assms(2) show ?thesis by simp
qed

lemma float64_lower:
  assumes "0 < a"
  shows "2 ^ nat (bitlen a - 1) \<le> float64 a"
proof -
  define s where "s = nat (bitlen a - 53)"
  define p :: int where "p = 2 ^ s"
  have p: "0 < p" by (simp add: p_def)
  have b: "2 ^ nat (bitlen a - 1) \<le> a" using bitlen_bounds [OF assms] by simp
  have "s \<le> nat (bitlen a - 1)" by (simp add: s_def)
  then obtain d where d: "nat (bitlen a - 1) = d + s"
    by (metis le_add_diff_inverse2)
  have "2 ^ d * p \<le> a" using b by (simp add: d p_def power_add)
  then have "(2 ^ d * p) div p \<le> a div p" using p by (intro zdiv_mono1) simp_all
  then have "2 ^ d \<le> a div p" using p by simp
  then have "2 ^ d * p \<le> (a div p) * p" using p by (intro mult_right_mono) simp_all
  moreover have "(a div p) * p \<le> float64 a"
    using assms p by (simp add: float64_pos_unfold s_def [symmetric] p_def [symmetric])
  ultimately have "2 ^ d * p \<le> float64 a" by (rule order_trans)
  moreover have "2 ^ nat (bitlen a - 1) = 2 ^ d * p" by (simp add: d p_def power_add)
  ultimately show ?thesis by simp
qed

lemma float64_above:
  assumes "2 ^ 60 - 64 \<le> a"
  shows "2 ^ 60 \<le> float64 a"
proof (cases "a < 2 ^ 60")
  case True
  have pos: "0 \<le> a" using assms by simp
  have "bitlen a \<le> 60" using True by (simp add: bitlen_le_iff_power)
  moreover have "60 \<le> bitlen a" using assms by (simp add: bitlen_ge_iff_power)
  ultimately have s: "nat (bitlen a - 53) = 7" by simp
  have q: "a div 128 = 2 ^ 53 - 1" using assms True by simp
  have "a mod 128 = a - (a div 128) * 128" by (simp add: minus_div_mult_eq_mod)
  then have r: "64 \<le> a mod 128" using assms q by simp
  show ?thesis
    using q r by (simp add: float64_pos_unfold [OF pos] s)
next
  case False
  then have a: "2 ^ 60 \<le> a" by simp
  then have "0 < a" by (smt (verit) zero_less_power)
  have "61 \<le> bitlen a" using a by (simp add: bitlen_ge_iff_power)
  then have "60 \<le> nat (bitlen a - 1)" by simp
  then have "(2::int) ^ 60 \<le> 2 ^ nat (bitlen a - 1)"
    by (intro power_increasing) simp_all
  with float64_lower [OF \<open>0 < a\<close>] show ?thesis by simp
qed

lemma float64_relative_error:
  assumes "0 \<le> a"
  shows "2 ^ 53 * \<bar>float64 a - a\<bar> \<le> a"
proof (cases "bitlen a \<le> 53")
  case True
  then have "\<bar>a\<bar> < 2 ^ 53" using assms by (simp add: bitlen_le_iff_power)
  then show ?thesis using assms by (simp add: float64_exact)
next
  case False
  then have pos: "0 < a" using assms by (cases "a = 0") simp_all
  from False obtain s where s: "bitlen a = 53 + int s" "0 < s"
    by (metis linorder_not_le nat_0_iff not_gr_zero
        diff_le_0_iff_le zless_iff_Suc_zadd add_diff_cancel_left' nat_int)
  have "nat (bitlen a - 53) = s" "nat (bitlen a - 1) = 52 + s" using s by simp_all
  with float64_half_ulp [OF assms] bitlen_bounds [OF pos]
  have h: "2 * \<bar>float64 a - a\<bar> \<le> 2 ^ s" "2 ^ (52 + s) \<le> a" by simp_all
  have "2 ^ 53 * \<bar>float64 a - a\<bar> = 2 ^ 52 * (2 * \<bar>float64 a - a\<bar>)" by simp
  also have "\<dots> \<le> 2 ^ 52 * 2 ^ s" using h(1) by (intro mult_left_mono) simp_all
  also have "\<dots> = 2 ^ (52 + s)" by (simp add: power_add)
  finally show ?thesis using h(2) by simp
qed

subsection \<open>\<open>getUnits\<close>\<close>

lemma getUnits_ok:
  assumes "0 \<le> sint c" "sint c < 2 ^ 60 - 64"
  shows "\<exists>k. k < 6 \<and> getUnits c = Inr \<lparr>count = of_int (float64 (sint c)) / 1024 ^ k, desc = descs ! k\<rparr>
      \<and> 0 \<le> (of_int (float64 (sint c)) :: rat) / 1024 ^ k
      \<and> (of_int (float64 (sint c)) :: rat) / 1024 ^ k < 1024"
proof -
  have "0 \<le> float64 (sint c)"
    using assms(1) by (rule float64_sign_nonneg)
  moreover have "float64 (sint c) < 2 ^ 60"
    using assms by (rule float64_below)
  ultimately have "0 \<le> float64 (sint c)" "float64 (sint c) < 2 ^ 60" .
  then have "(0::rat) \<le> of_int (float64 (sint c))" "(of_int (float64 (sint c)) :: rat) < of_int (2 ^ 60)"
    by (simp_all only: of_int_0_le_iff of_int_less_iff)
  then have "(0::rat) \<le> of_int (float64 (sint c))" "(of_int (float64 (sint c)) :: rat) < 1024 ^ (6 - 0)"
    by simp_all
  from reducer_in_range [OF this(1) _ this(2)] show ?thesis
    by (simp add: getUnits_def)
qed

lemma getUnits_panics:
  assumes "2 ^ 60 - 64 \<le> sint c"
  shows "getUnits c = Inl IndexOutOfRange"
proof -
  have "2 ^ 60 \<le> float64 (sint c)"
    using assms by (rule float64_above)
  then have "(of_int (2 ^ 60) :: rat) \<le> of_int (float64 (sint c))"
    by (simp only: of_int_le_iff)
  then have "(1024 :: rat) ^ (6 - 0) \<le> of_int (float64 (sint c))" "(0::rat) \<le> of_int (float64 (sint c))"
    by simp_all
  then show ?thesis
    unfolding getUnits_def by (intro reducer_out_of_range) simp_all
qed

text \<open>
  Claim C3, as the code has it. For a non-negative byte count below \<open>2^60 - 64\<close> (the
  counts whose \<^verbatim>\<open>float64\<close> value is below \<open>1024^6\<close>) \<open>getUnits\<close> returns a result
  whose label is one of the six labels of \<open>descs\<close>, and the value is below 1024 under
  every label, PB included. There is no clamp at PB: from \<open>2^60 - 64\<close> on, \<open>reducer\<close>
  reaches index 6 and \<^verbatim>\<open>descs[descIdx]\<close> is out of range.
\<close>

theorem getUnits_label_in_range:
  "0 \<le> sint c \<Longrightarrow>
     (sint c < 2 ^ 60 - 64 \<longrightarrow> (\<exists>u. getUnits c = Inr u \<and> desc u \<in> set descs \<and> count u < 1024)) \<and>
     (2 ^ 60 - 64 \<le> sint c \<longrightarrow> getUnits c = Inl IndexOutOfRange)"
proof (intro conjI impI)
  assume "0 \<le> sint c" "sint c < 2 ^ 60 - 64"
  from getUnits_ok [OF this] obtain k where k: "k < 6"
    "getUnits c = Inr \<lparr>count = of_int (float64 (sint c)) / 1024 ^ k, desc = descs ! k\<rparr>"
    "(of_int (float64 (sint c)) :: rat) / 1024 ^ k < 1024"
    by blast
  have "descs ! k \<in> set descs" using k(1) by (intro nth_mem) (simp add: descs_def)
  with k show "\<exists>u. getUnits c = Inr u \<and> desc u \<in> set descs \<and> count u < 1024" by simp
next
  assume "2 ^ 60 - 64 \<le> sint c"
  then show "getUnits c = Inl IndexOutOfRange" by (rule getUnits_panics)
qed

text \<open>The two cases of C3 at the counts 3500 and \<open>2^62\<close>.\<close>

theorem getUnits_label_in_range_witness:
  "(\<exists>u. getUnits 3500 = Inr u \<and> desc u \<in> set descs \<and> count u < 1024) \<and>
   getUnits (2 ^ 62) = Inl IndexOutOfRange"
  using getUnits_label_in_range [of 3500] getUnits_label_in_range [of "2 ^ 62"]
  by simp

text \<open>
  C3 as the spec states it (no byte count causes an out-of-range access of the label
  list) fails at \<open>2^60\<close> bytes, one exbibyte.
\<close>

theorem getUnits_no_clamp_counterexample:
  "getUnits (2 ^ 60) = Inl IndexOutOfRange"
  by (rule getUnits_panics) simp

text \<open>
  Claim C4, as the code has it. For a byte count \<open>c\<close> with \<open>0 \<le> c < 2^60 - 64\<close>,
  \<open>getUnits\<close> returns a value and a label, the label is \<open>descs ! k\<close> for an index
  \<open>k\<close>, value times \<open>1024^k\<close> is exactly \<open>float64 c\<close>, which differs from \<open>c\<close> by at
  most \<open>c / 2^53\<close>, and \<open>0 \<le> value < 1024\<close>.
\<close>

theorem getUnits_round_trip:
  "0 \<le> sint c \<Longrightarrow> sint c < 2 ^ 60 - 64 \<Longrightarrow>
     \<exists>u k. getUnits c = Inr u \<and> k < length descs \<and> desc u = descs ! k \<and>
       count u * 1024 ^ k = of_int (float64 (sint c)) \<and>
       2 ^ 53 * \<bar>float64 (sint c) - sint c\<bar> \<le> sint c \<and>
       0 \<le> count u \<and> count u < 1024"
proof -
  assume a: "0 \<le> sint c" "sint c < 2 ^ 60 - 64"
  from getUnits_ok [OF this] obtain k where k: "k < 6"
    "getUnits c = Inr \<lparr>count = of_int (float64 (sint c)) / 1024 ^ k, desc = descs ! k\<rparr>"
    "0 \<le> (of_int (float64 (sint c)) :: rat) / 1024 ^ k"
    "(of_int (float64 (sint c)) :: rat) / 1024 ^ k < 1024"
    by blast
  let ?u = "\<lparr>count = of_int (float64 (sint c)) / 1024 ^ k, desc = descs ! k\<rparr>"
  have "getUnits c = Inr ?u \<and> k < length descs \<and> desc ?u = descs ! k \<and>
       count ?u * 1024 ^ k = of_int (float64 (sint c)) \<and>
       2 ^ 53 * \<bar>float64 (sint c) - sint c\<bar> \<le> sint c \<and>
       0 \<le> count ?u \<and> count ?u < 1024"
    using k float64_relative_error [OF a(1)] by (simp add: descs_def)
  then show ?thesis by blast
qed

text \<open>C4 at 3500 bytes.\<close>

theorem getUnits_round_trip_witness:
  "\<exists>u k. getUnits 3500 = Inr u \<and> k < length descs \<and> desc u = descs ! k \<and>
       count u * 1024 ^ k = of_int (float64 (sint (3500 :: 64 word))) \<and>
       2 ^ 53 * \<bar>float64 (sint (3500 :: 64 word)) - sint (3500 :: 64 word)\<bar> \<le> sint (3500 :: 64 word) \<and>
       0 \<le> count u \<and> count u < 1024"
  using getUnits_round_trip [of 3500] by simp

text \<open>
  C4 as the spec states it (for all non-negative byte counts \<open>getUnits\<close> returns a
  pair) fails at the largest \<^verbatim>\<open>int64\<close>: no pair is returned.
\<close>

theorem getUnits_max_int64_counterexample:
  "getUnits 9223372036854775807 = Inl IndexOutOfRange"
  by (rule getUnits_panics) simp

text \<open>
  Claim C10. For every count \<open>c < 1024\<close>, zero and negative counts included, \<open>getUnits\<close>
  returns \<open>float64 c\<close> under the label B, with no division; \<open>float64 c\<close> is \<open>c\<close> itself
  for every such \<open>c\<close> above \<open>- 2^53\<close>.
\<close>

theorem getUnits_below_1024:
  "sint c < 1024 \<Longrightarrow>
     getUnits c = Inr \<lparr>count = of_int (float64 (sint c)), desc = ''B''\<rparr> \<and>
     (- (2 ^ 53) < sint c \<longrightarrow> float64 (sint c) = sint c)"
proof
  assume a: "sint c < 1024"
  have "float64 (sint c) < 1024"
  proof (cases "0 \<le> sint c")
    case True
    with a have "\<bar>sint c\<bar> < 2 ^ 53" by simp
    then show ?thesis using a by (simp add: float64_exact)
  next
    case False
    then have "float64 (sint c) \<le> 0" by (intro float64_sign_neg) simp
    then show ?thesis by simp
  qed
  then have "(of_int (float64 (sint c)) :: rat) < of_int 1024"
    by (simp only: of_int_less_iff)
  then show "getUnits c = Inr \<lparr>count = of_int (float64 (sint c)), desc = ''B''\<rparr>"
    by (simp add: getUnits_def reducer_stop descs_at_def descs_def)
  show "- (2 ^ 53) < sint c \<longrightarrow> float64 (sint c) = sint c"
    using a by (auto intro: float64_exact)
qed

text \<open>C10 at 0, -5 and 1023.\<close>

theorem getUnits_below_1024_witness:
  "getUnits 0 = Inr \<lparr>count = 0, desc = ''B''\<rparr> \<and>
   getUnits (- 5) = Inr \<lparr>count = - 5, desc = ''B''\<rparr> \<and>
   getUnits 1023 = Inr \<lparr>count = 1023, desc = ''B''\<rparr>"
  using getUnits_below_1024 [of 0] getUnits_below_1024 [of "- 5"] getUnits_below_1024 [of 1023]
  by simp

section \<open>Properties of the running program\<close>

subsection \<open>Evaluation and invariants\<close>

lemma getUnits_B:
  assumes "0 \<le> sint c" "sint c < 1024"
  shows "getUnits c = Inr \<lparr>count = of_int (sint c), desc = ''B''\<rparr>"
proof -
  have "\<bar>sint c\<bar> < 2 ^ 53" using assms by simp
  then have f: "float64 (sint c) = sint c" by (rule float64_exact)
  have "(of_int (sint c) :: rat) < of_int 1024"
    using assms by (simp only: of_int_less_iff)
  then show ?thesis
    by (simp add: getUnits_def f reducer_stop descs_at_def descs_def)
qed

lemma getUnits_KB:
  assumes "1024 \<le> sint c" "sint c < 1048576"
  shows "getUnits c = Inr \<lparr>count = of_int (sint c) / 1024, desc = ''KB''\<rparr>"
proof -
  have "\<bar>sint c\<bar> < 2 ^ 53" using assms by simp
  then have f: "float64 (sint c) = sint c" by (rule float64_exact)
  have "(of_int 1024 :: rat) \<le> of_int (sint c)" "(of_int (sint c) :: rat) < of_int 1048576"
    using assms by (simp_all only: of_int_le_iff of_int_less_iff)
  then have "(1024 :: rat) \<le> of_int (sint c)" "(of_int (sint c) :: rat) / 1024 < 1024"
    by simp_all
  then show ?thesis
    by (simp add: getUnits_def f reducer_go reducer_stop descs_at_def descs_def)
qed

lemma take_bytes_sum: "take_bytes n cs = (w, rest) \<Longrightarrow> w + sum_list rest = sum_list cs \<and> w \<le> n"
proof (induction n cs arbitrary: w rest rule: take_bytes.induct)
  case (1 n)
  then show ?case by simp
next
  case (2 n c cs)
  show ?case
  proof (cases "n = 0")
    case True
    with "2.prems" show ?thesis by simp
  next
    case n: False
    show ?thesis
    proof (cases "c \<le> n")
      case True
      obtain w' rest' where t: "take_bytes (n - c) cs = (w', rest')" by (cases "take_bytes (n - c) cs")
      from "2.IH" [OF n True t] have ih: "w' + sum_list rest' = sum_list cs" "w' \<le> n - c"
        by simp_all
      from "2.prems" n True t have e: "w = c + w'" "rest = rest'" by simp_all
      have "c + w' \<le> n" using ih(2) True by linarith
      then show ?thesis using ih(1) e by simp
    next
      case False
      with "2.prems" n show ?thesis by auto
    qed
  qed
qed

lemmas run_defs = step_def main_step_def inner_step_def outer_step_def init_def CopyN_def
  bufSize_def Let_def

lemmas step_splits = if_splits action.splits mainpc.splits innerpc.splits outerpc.splits
  option.splits sum.splits prod.splits

lemmas step_defs = step_def main_step_def inner_step_def outer_step_def Let_def

lemma exec_invariant:
  assumes "\<And>a s s'. a \<in> A \<Longrightarrow> step a s = Some s' \<Longrightarrow> P s \<Longrightarrow> P s'"
  shows "set as \<subseteq> A \<Longrightarrow> exec as s = Some s' \<Longrightarrow> P s \<Longrightarrow> P s'"
proof (induction as arbitrary: s)
  case Nil
  then show ?case by simp
next
  case (Cons a as)
  from Cons.prems(2) obtain t where t: "step a s = Some t" "exec as t = Some s'"
    by (auto split: option.splits)
  from Cons.prems(1) have "a \<in> A" "set as \<subseteq> A" by simp_all
  from assms [OF this(1) t(1) Cons.prems(3)] have "P t" .
  from Cons.IH [OF \<open>set as \<subseteq> A\<close> t(2) this] show ?case .
qed

lemma step_requests:
  "step a s = Some s' \<Longrightarrow> \<forall>b\<in>set (requests s). b = 409500 \<Longrightarrow> \<forall>b\<in>set (requests s'). b = 409500"
  by (auto simp: step_defs bufSize_def split: step_splits)

lemma bufSize_nat: "nat (sint (bufSize r)) = 409500"
  by (simp add: bufSize_def)

lemma CopyN_full: "CopyN n src = (w, None, src') \<Longrightarrow> w = n"
  by (auto simp: CopyN_def split: prod.splits if_splits)

lemma CopyN_short:
  "sum_list (chunks src) < n \<Longrightarrow> CopyN n src = (w, err, src') \<Longrightarrow>
     err = Some (ending src) \<and> sum_list (chunks src') < n"
  by (auto simp: CopyN_def split: prod.splits if_splits dest!: take_bytes_sum)

lemma step_received:
  assumes "step a s = Some s'"
    and "(\<forall>n\<in>set (received s). n = 409500) \<and> (\<forall>n. mainPc s = R_send n \<longrightarrow> n = 409500)"
  shows "(\<forall>n\<in>set (received s'). n = 409500) \<and> (\<forall>n. mainPc s' = R_send n \<longrightarrow> n = 409500)"
proof (cases a)
  case Main
  show ?thesis
  proof (cases "mainPc s = R_copy")
    case True
    obtain w err src' where c: "CopyN 409500 (input s) = (w, err, src')"
      by (cases "CopyN 409500 (input s)") auto
    show ?thesis
    proof (cases err)
      case None
      with c have "w = 409500" by (auto dest: CopyN_full)
      with assms Main True c None show ?thesis
        by (auto simp: step_def main_step_def bufSize_nat split: if_splits)
    next
      case (Some e)
      with assms Main True c show ?thesis
        by (auto simp: step_def main_step_def bufSize_nat split: if_splits)
    qed
  next
    case False
    with assms Main show ?thesis
      by (auto simp: step_def main_step_def split: if_splits mainpc.splits option.splits)
  qed
qed (use assms in \<open>auto simp: step_defs split: step_splits\<close>)

lemma step_short_source:
  assumes "step a s = Some s'"
    and "sum_list (chunks (input s)) < 409500 \<and> received s = [] \<and> total (vars s) = 0 \<and>
         (\<forall>n. mainPc s \<noteq> R_send n) \<and> (\<forall>n. innerPc s \<noteq> I_add1 n) \<and> (\<forall>n. innerPc s \<noteq> I_add2 n)"
  shows "sum_list (chunks (input s')) < 409500 \<and> received s' = [] \<and> total (vars s') = 0 \<and>
         (\<forall>n. mainPc s' \<noteq> R_send n) \<and> (\<forall>n. innerPc s' \<noteq> I_add1 n) \<and> (\<forall>n. innerPc s' \<noteq> I_add2 n)"
proof (cases a)
  case Main
  show ?thesis
  proof (cases "mainPc s = R_copy")
    case True
    obtain w err src' where c: "CopyN 409500 (input s) = (w, err, src')"
      by (cases "CopyN 409500 (input s)") auto
    from assms(2) have "sum_list (chunks (input s)) < 409500" by simp
    from CopyN_short [OF this c] have "err = Some (ending (input s))" "sum_list (chunks src') < 409500"
      by simp_all
    with assms Main True c show ?thesis
      by (auto simp: step_def main_step_def bufSize_nat split: if_splits)
  next
    case False
    with assms Main show ?thesis
      by (auto simp: step_def main_step_def split: if_splits mainpc.splits option.splits)
  qed
qed (use assms in \<open>auto simp: step_defs split: step_splits\<close>)

lemma step_no_signal:
  assumes "a \<in> - {OsSignal}" "step a s = Some s'"
    and "\<not> ctxDone s \<and> \<not> sigs s \<and> \<not> exited s \<and> mainPc s \<noteq> R_ret None \<and> mainPc s \<noteq> M_exit \<and>
         (outerPc s = O_start \<or> outerPc s = O_wait) \<and> \<not> list_ex is_Summary (stdout s)"
  shows "\<not> ctxDone s' \<and> \<not> sigs s' \<and> \<not> exited s' \<and> mainPc s' \<noteq> R_ret None \<and> mainPc s' \<noteq> M_exit \<and>
         (outerPc s' = O_start \<or> outerPc s' = O_wait) \<and> \<not> list_ex is_Summary (stdout s')"
  using assms by (cases a) (auto simp: step_defs split: step_splits)

lemma byteCount_steps:
  assumes "innerPc s = I_add1 n" "exec [Inner, Inner] s = Some s'"
  shows "vars s' = onByteCount n (vars s) \<and> innerPc s' = I_select"
proof -
  from assms(2) obtain s1 where s1: "step Inner s = Some s1" "step Inner s1 = Some s'"
    by (auto split: option.splits)
  from s1(1) assms(1) have a1: "innerPc s1 = I_add2 n" "vars s1 = (vars s)\<lparr>total := total (vars s) + n\<rparr>"
    by (auto simp: step_def inner_step_def split: if_splits)
  from s1(2) a1 show ?thesis
    by (auto simp: step_def inner_step_def onByteCount_def split: if_splits)
qed

lemma tick_steps_onTick:
  assumes "exec [Tick, Inner, Inner, Inner, Inner] s = Some s'"
  shows "\<exists>line. onTick (vars s) = Inr (line, vars s') \<and> stdout s' = stdout s @ [line]"
proof -
  from assms obtain s1 where s1: "step Tick s = Some s1" "exec [Inner, Inner, Inner, Inner] s1 = Some s'"
    by (auto split: option.splits)
  from s1(2) obtain s2 where s2: "step Inner s1 = Some s2" "exec [Inner, Inner, Inner] s2 = Some s'"
    by (auto split: option.splits)
  from s2(2) obtain s3 where s3: "step Inner s2 = Some s3" "exec [Inner, Inner] s3 = Some s'"
    by (auto split: option.splits)
  from s3(2) obtain s4 where s4: "step Inner s3 = Some s4" "step Inner s4 = Some s'"
    by (auto split: option.splits)
  from s1(1) have a1: "innerPc s1 = I_tick1" "vars s1 = vars s" "stdout s1 = stdout s"
    by (auto simp: step_def split: if_splits)
  from s2(2) s3(1) have nc2: "\<not> crashed s2" by (auto simp: step_def split: if_splits)
  from s2(1) a1 nc2 obtain p where a2: "innerPc s2 = I_tick2 p" "vars s2 = vars s"
    "stdout s2 = stdout s" "getUnits (prevSecond (vars s)) = Inr p"
    by (auto simp: step_def inner_step_def split: if_splits sum.splits)
  from s4(1) have nc3: "\<not> crashed s3" by (auto simp: step_def split: if_splits)
  from s3(1) a2 nc3 obtain t where a3: "innerPc s3 = I_tick3 p t" "vars s3 = vars s"
    "stdout s3 = stdout s" "getUnits (total (vars s)) = Inr t"
    by (auto simp: step_def inner_step_def split: if_splits sum.splits)
  from s4(1) a3 have a4: "innerPc s4 = I_tick4" "vars s4 = vars s" "stdout s4 = stdout s @ [TickLine p t]"
    by (auto simp: step_def inner_step_def split: if_splits)
  from s4(2) a4 have "vars s' = (vars s)\<lparr>prevSecond := 0\<rparr>" "stdout s' = stdout s @ [TickLine p t]"
    by (auto simp: step_def inner_step_def split: if_splits)
  with a2(4) a3(4) show ?thesis
    by (simp add: onTick_def)
qed

lemma step_total_received:
  assumes "step a s = Some s'"
    and "(outerPc s = O_start \<longrightarrow> innerPc s = I_none) \<and> (innerPc s = I_none \<longrightarrow> received s = []) \<and>
         (innerPc s \<noteq> I_none \<longrightarrow> total (vars s) + pending (innerPc s) = sum_list (received s))"
  shows "(outerPc s' = O_start \<longrightarrow> innerPc s' = I_none) \<and> (innerPc s' = I_none \<longrightarrow> received s' = []) \<and>
         (innerPc s' \<noteq> I_none \<longrightarrow> total (vars s') + pending (innerPc s') = sum_list (received s'))"
proof (cases a)
  case Main
  with assms show ?thesis
    by (auto simp: step_def main_step_def Let_def split: if_splits mainpc.splits option.splits prod.splits)
next
  case Handoff
  with assms show ?thesis
    by (auto simp: step_def split: if_splits mainpc.splits innerpc.splits)
next
  case Inner
  with assms show ?thesis
    by (auto simp: step_def inner_step_def split: if_splits innerpc.splits sum.splits)
next
  case Outer
  with assms show ?thesis
    by (auto simp: step_def outer_step_def split: if_splits outerpc.splits sum.splits)
qed (use assms in \<open>auto simp: step_def split: if_splits\<close>)

lemma total_tracks_received:
  assumes "exec as (init src r) = Some s" "innerPc s = I_select"
  shows "total (vars s) = sum_list (received s)"
proof -
  let ?P = "\<lambda>s. (outerPc s = O_start \<longrightarrow> innerPc s = I_none) \<and> (innerPc s = I_none \<longrightarrow> received s = []) \<and>
         (innerPc s \<noteq> I_none \<longrightarrow> total (vars s) + pending (innerPc s) = sum_list (received s))"
  have i: "?P (init src r)" by (simp add: init_def)
  have "?P s"
    by (rule exec_invariant [where A = UNIV and P = ?P, OF _ _ assms(1) i])
       (erule (1) step_total_received, simp)
  with assms(2) show ?thesis by simp
qed

subsection \<open>The claims about the reader, the aggregator and the shutdown\<close>

lemma exec_requests:
  "exec as s = Some s' \<Longrightarrow> \<forall>b\<in>set (requests s). b = 409500 \<Longrightarrow> \<forall>b\<in>set (requests s'). b = 409500"
  using exec_invariant [where A = UNIV and P = "\<lambda>s. \<forall>b\<in>set (requests s). b = 409500"]
    step_requests by blast

text \<open>
  Claim C6. Whatever the chunk-size hint \<open>r\<close>, the source and the schedule, every size
  the Stream Reader has passed to \<^verbatim>\<open>io.CopyN\<close> is 409500.
\<close>

theorem read_size_constant:
  "exec as (init src r) = Some s \<Longrightarrow> \<forall>b\<in>set (requests s). b = 409500"
  by (erule exec_requests) (simp add: init_def)

text \<open>C6 with the hint 7: two read attempts, both of 409500 bytes.\<close>

theorem read_size_constant_witness:
  "map_option requests
     (exec [Main, Main, Outer, Handoff, Main, Main]
        (init \<lparr>chunks = [300000, 300000, 300000], ending = EOF\<rparr> 7)) = Some [409500, 409500]"
  using read_size_constant [of "[Main, Main, Outer, Handoff, Main, Main]"
      "\<lparr>chunks = [300000, 300000, 300000], ending = EOF\<rparr>" 7
      "the (exec [Main, Main, Outer, Handoff, Main, Main]
        (init \<lparr>chunks = [300000, 300000, 300000], ending = EOF\<rparr> 7))"]
  by (simp add: run_defs)

lemma exec_received:
  "exec as s = Some s' \<Longrightarrow>
   (\<forall>n\<in>set (received s). n = 409500) \<and> (\<forall>n. mainPc s = R_send n \<longrightarrow> n = 409500) \<Longrightarrow>
   (\<forall>n\<in>set (received s'). n = 409500) \<and> (\<forall>n. mainPc s' = R_send n \<longrightarrow> n = 409500)"
  using exec_invariant [where A = UNIV and
      P = "\<lambda>s. (\<forall>n\<in>set (received s). n = 409500) \<and> (\<forall>n. mainPc s = R_send n \<longrightarrow> n = 409500)"]
    step_received by blast

lemma exec_short_source:
  "exec as s = Some s' \<Longrightarrow>
   sum_list (chunks (input s)) < 409500 \<and> received s = [] \<and> total (vars s) = 0 \<and>
         (\<forall>n. mainPc s \<noteq> R_send n) \<and> (\<forall>n. innerPc s \<noteq> I_add1 n) \<and> (\<forall>n. innerPc s \<noteq> I_add2 n) \<Longrightarrow>
   sum_list (chunks (input s')) < 409500 \<and> received s' = [] \<and> total (vars s') = 0 \<and>
         (\<forall>n. mainPc s' \<noteq> R_send n) \<and> (\<forall>n. innerPc s' \<noteq> I_add1 n) \<and> (\<forall>n. innerPc s' \<noteq> I_add2 n)"
  using exec_invariant [where A = UNIV and
      P = "\<lambda>s. sum_list (chunks (input s)) < 409500 \<and> received s = [] \<and> total (vars s) = 0 \<and>
         (\<forall>n. mainPc s \<noteq> R_send n) \<and> (\<forall>n. innerPc s \<noteq> I_add1 n) \<and> (\<forall>n. innerPc s \<noteq> I_add2 n)"]
    step_short_source by blast

text \<open>
  Claim C5, what the code does instead. \<^verbatim>\<open>io.CopyN\<close> returns an error whenever it
  transfers fewer bytes than requested, and \<^verbatim>\<open>ReadData\<close> returns on an error before the
  send: every value the aggregator ever receives is 409500, and a source of fewer than
  409500 bytes leaves nothing received and \<open>total\<close> at 0.
\<close>

theorem partial_read_not_reported:
  "exec as (init src r) = Some s \<Longrightarrow>
     (\<forall>n\<in>set (received s). n = 409500) \<and>
     (sum_list (chunks src) < 409500 \<longrightarrow> received s = [] \<and> total (vars s) = 0)"
proof (intro conjI impI)
  assume e: "exec as (init src r) = Some s"
  from exec_received [OF e] show "\<forall>n\<in>set (received s). n = 409500"
    by (simp add: init_def)
  assume "sum_list (chunks src) < 409500"
  with exec_short_source [OF e] show "received s = []" "total (vars s) = 0"
    by (simp_all add: init_def)
qed

text \<open>
  C5 on the spec's scenario, chunks of 1000, 2000 and 500 bytes and then end of stream:
  the reader has stopped with the error, a tick has been reported, and \<open>total\<close> is 0,
  not 3500.
\<close>

theorem partial_read_not_reported_witness:
  "map_option (\<lambda>s. (mainPc s, received s, total (vars s), stdout s))
     (exec [Outer, Main, Main, Main, Tick, Inner, Inner, Inner, Inner]
        (init \<lparr>chunks = [1000, 2000, 500], ending = EOF\<rparr> 1))
   = Some (M_wait, [], 0, [TickLine \<lparr>count = 0, desc = ''B''\<rparr> \<lparr>count = 0, desc = ''B''\<rparr>])"
  using partial_read_not_reported [of "[Outer, Main, Main, Main, Tick, Inner, Inner, Inner, Inner]"
      "\<lparr>chunks = [1000, 2000, 500], ending = EOF\<rparr>" 1
      "the (exec [Outer, Main, Main, Main, Tick, Inner, Inner, Inner, Inner]
        (init \<lparr>chunks = [1000, 2000, 500], ending = EOF\<rparr> 1))"]
  by (simp add: run_defs getUnits_B)

lemma exec_no_signal:
  "set as \<subseteq> - {OsSignal} \<Longrightarrow> exec as s = Some s' \<Longrightarrow>
   \<not> ctxDone s \<and> \<not> sigs s \<and> \<not> exited s \<and> mainPc s \<noteq> R_ret None \<and> mainPc s \<noteq> M_exit \<and>
         (outerPc s = O_start \<or> outerPc s = O_wait) \<and> \<not> list_ex is_Summary (stdout s) \<Longrightarrow>
   \<not> ctxDone s' \<and> \<not> sigs s' \<and> \<not> exited s' \<and> mainPc s' \<noteq> R_ret None \<and> mainPc s' \<noteq> M_exit \<and>
         (outerPc s' = O_start \<or> outerPc s' = O_wait) \<and> \<not> list_ex is_Summary (stdout s')"
  using exec_invariant [where A = "- {OsSignal}" and
      P = "\<lambda>s. \<not> ctxDone s \<and> \<not> sigs s \<and> \<not> exited s \<and> mainPc s \<noteq> R_ret None \<and> mainPc s \<noteq> M_exit \<and>
         (outerPc s = O_start \<or> outerPc s = O_wait) \<and> \<not> list_ex is_Summary (stdout s)"]
    step_no_signal by blast

text \<open>
  Claim C2, what the code does instead. As long as the operating system delivers no
  signal, whatever the source returns and however the goroutines are scheduled, the
  context is never cancelled, \<^verbatim>\<open>CalculateBandwidth\<close> stays before or at
  \<^verbatim>\<open><-ctx.Done()\<close>, no summary is printed and the process does not exit: a read error
  starts no shutdown.
\<close>

theorem read_error_does_not_cancel:
  "OsSignal \<notin> set as \<Longrightarrow> exec as (init src r) = Some s \<Longrightarrow>
     \<not> ctxDone s \<and> \<not> exited s \<and> (outerPc s = O_start \<or> outerPc s = O_wait) \<and>
     \<not> list_ex is_Summary (stdout s)"
proof -
  assume "OsSignal \<notin> set as" and e: "exec as (init src r) = Some s"
  then have "set as \<subseteq> - {OsSignal}" by auto
  from exec_no_signal [OF this e] show ?thesis
    by (simp add: init_def)
qed

text \<open>
  C2 on a source that ends after 3500 bytes: \<^verbatim>\<open>ReadData\<close> has returned the error, the
  main goroutine is blocked at \<^verbatim>\<open><-ctx.Done()\<close> and so is \<^verbatim>\<open>CalculateBandwidth\<close>.
\<close>

theorem read_error_does_not_cancel_witness:
  "map_option (\<lambda>s. (mainPc s, ctxDone s, exited s, outerPc s, stdout s, step Main s, step Outer s))
     (exec [Outer, Main, Main, Main] (init \<lparr>chunks = [1000, 2000, 500], ending = EOF\<rparr> 1))
   = Some (M_wait, False, False, O_wait, [], None, None)"
  using read_error_does_not_cancel [of "[Outer, Main, Main, Main]"
      "\<lparr>chunks = [1000, 2000, 500], ending = EOF\<rparr>" 1
      "the (exec [Outer, Main, Main, Main] (init \<lparr>chunks = [1000, 2000, 500], ending = EOF\<rparr> 1))"]
  by (simp add: run_defs)

text \<open>
  Claim C1, what the code does instead: two executions in which the process has exited
  and no summary line was printed. In the first an interrupt arrives after one chunk and
  one tick; in the second the source is empty, the read fails, and an interrupt arrives
  afterwards. In both \<^verbatim>\<open>os.Exit(0)\<close> runs while \<^verbatim>\<open>CalculateBandwidth\<close> is still at
  \<^verbatim>\<open><-ctx.Done()\<close>.
\<close>

theorem exit_before_summary:
  "map_option (\<lambda>s. (exited s, stdout s))
    (exec [Outer, Main, Main, Handoff, Inner, Inner, Tick, Inner, Inner, Inner, Inner,
        OsSignal, SigHandler, Main, Main, Main]
      (init \<lparr>chunks = [300000, 300000, 300000], ending = EOF\<rparr> 1))
   = Some (True, [TickLine \<lparr>count = 102375 / 256, desc = ''KB''\<rparr> \<lparr>count = 102375 / 256, desc = ''KB''\<rparr>])
   \<and> map_option (\<lambda>s. (exited s, stdout s))
    (exec [Outer, Main, Main, Main, OsSignal, SigHandler, Main, Main]
      (init \<lparr>chunks = [], ending = EOF\<rparr> 1))
   = Some (True, [])"
  by (simp add: run_defs getUnits_KB)

lemma sint_sum_list:
  "\<forall>n\<in>set ns. 0 \<le> sint n \<Longrightarrow> sum_list (map sint ns) < 2 ^ 63 \<Longrightarrow>
     sint (sum_list ns :: 64 word) = sum_list (map sint ns)"
proof (induction ns)
  case Nil
  then show ?case by simp
next
  case (Cons n ns)
  have nn: "0 \<le> sum_list (map sint ns)"
    using Cons.prems(1) by (intro sum_list_nonneg) auto
  have n0: "0 \<le> sint n" using Cons.prems(1) by simp
  have lt: "sint n + sum_list (map sint ns) < 2 ^ 63" using Cons.prems(2) by simp
  then have "sum_list (map sint ns) < 2 ^ 63" using n0 by linarith
  with Cons have ih: "sint (sum_list ns) = sum_list (map sint ns)" by simp
  have "sint (n + sum_list ns) = signed_take_bit 63 (sint n + sint (sum_list ns))"
    by (simp add: sint_word_ariths)
  also have "\<dots> = sint n + sint (sum_list ns)"
    using nn n0 lt unfolding ih by (intro signed_take_bit_int_eq_self) simp_all
  finally show ?case using ih by simp
qed

lemma select_loop_total:
  "select_loop evs (st, outs) = Inr (st', outs') \<Longrightarrow> total st' = total st + sum_list (byteCounts evs)"
proof (induction evs arbitrary: st outs)
  case Nil
  then show ?case by simp
next
  case (Cons ev evs)
  show ?case
  proof (cases ev)
    case (ByteCount n)
    with Cons.prems have "select_loop evs (onByteCount n st, outs) = Inr (st', outs')" by simp
    from Cons.IH [OF this] show ?thesis
      using ByteCount by (simp add: onByteCount_def)
  next
    case TickEv
    with Cons.prems obtain line st1 where t: "onTick st = Inr (line, st1)"
      "select_loop evs (st1, outs @ [line]) = Inr (st', outs')"
      by (auto split: sum.splits)
    from t(1) have "total st1 = total st"
      by (auto simp: onTick_def split: sum.splits)
    with Cons.IH [OF t(2)] show ?thesis using TickEv by simp
  qed
qed

text \<open>
  Claim C7, as the code has it. After any sequence of events, \<open>total\<close> is the sum of the
  byte counts received in 64-bit arithmetic (modulo \<open>2^64\<close>); it is their exact sum when
  they are non-negative and the sum is below \<open>2^63\<close>. No value is dropped or counted
  twice. (\<open>total_tracks_received\<close> above is the same fact in the running program.)
\<close>

theorem total_is_sum_mod_2_64:
  "select_loop evs (\<lparr>total = 0, prevSecond = 0\<rparr>, []) = Inr (st, outs) \<Longrightarrow>
     total st = sum_list (byteCounts evs) \<and>
     ((\<forall>n\<in>set (byteCounts evs). 0 \<le> sint n) \<and> sum_list (map sint (byteCounts evs)) < 2 ^ 63 \<longrightarrow>
        sint (total st) = sum_list (map sint (byteCounts evs)))"
proof -
  assume "select_loop evs (\<lparr>total = 0, prevSecond = 0\<rparr>, []) = Inr (st, outs)"
  from select_loop_total [OF this] have t: "total st = sum_list (byteCounts evs)" by simp
  then show ?thesis by (auto simp: sint_sum_list)
qed

text \<open>C7 on the byte counts 1000, 2000 and 500 with a tick in between.\<close>

theorem total_is_sum_mod_2_64_witness:
  "select_loop [ByteCount 1000, TickEv, ByteCount 2000, ByteCount 500] (\<lparr>total = 0, prevSecond = 0\<rparr>, [])
     = Inr (\<lparr>total = 3500, prevSecond = 2500\<rparr>,
            [TickLine \<lparr>count = 1000, desc = ''B''\<rparr> \<lparr>count = 1000, desc = ''B''\<rparr>])
   \<and> sint (3500 :: 64 word) = 1000 + 2000 + 500"
  using total_is_sum_mod_2_64 [of "[ByteCount 1000, TickEv, ByteCount 2000, ByteCount 500]"
      "\<lparr>total = 3500, prevSecond = 2500\<rparr>"
      "[TickLine \<lparr>count = 1000, desc = ''B''\<rparr> \<lparr>count = 1000, desc = ''B''\<rparr>]"]
  by (simp add: onByteCount_def onTick_def getUnits_B)

text \<open>
  C7 as the spec states it (the exact arithmetic sum, for any sequence) fails for two
  byte counts of \<open>2^62\<close>: their sum is \<open>2^63\<close>, and \<open>total\<close> is \<open>- 2^63\<close>.
\<close>

theorem total_wraps_counterexample:
  "select_loop [ByteCount 4611686018427387904, ByteCount 4611686018427387904]
      (\<lparr>total = 0, prevSecond = 0\<rparr>, [])
    = Inr (\<lparr>total = 9223372036854775808, prevSecond = 9223372036854775808\<rparr>, [])
   \<and> sint (9223372036854775808 :: 64 word) = - 9223372036854775808
   \<and> sint (4611686018427387904 :: 64 word) + sint (4611686018427387904 :: 64 word) = 9223372036854775808"
  by (simp add: onByteCount_def)

lemma tick_steps:
  assumes "exec [Tick, Inner, Inner, Inner, Inner] s = Some s'"
  shows "prevSecond (vars s') = 0 \<and> total (vars s') = total (vars s) \<and> innerPc s' = I_select"
proof -
  from assms obtain s1 where s1: "step Tick s = Some s1" "exec [Inner, Inner, Inner, Inner] s1 = Some s'"
    by (auto split: option.splits)
  from s1(2) obtain s2 where s2: "step Inner s1 = Some s2" "exec [Inner, Inner, Inner] s2 = Some s'"
    by (auto split: option.splits)
  from s2(2) obtain s3 where s3: "step Inner s2 = Some s3" "exec [Inner, Inner] s3 = Some s'"
    by (auto split: option.splits)
  from s3(2) obtain s4 where s4: "step Inner s3 = Some s4" "step Inner s4 = Some s'"
    by (auto split: option.splits)
  from s1(1) have a1: "innerPc s1 = I_tick1" "vars s1 = vars s"
    by (auto simp: step_def split: if_splits)
  from s2(2) s3(1) have nc2: "\<not> crashed s2" by (auto simp: step_def split: if_splits)
  from s2(1) a1 nc2 obtain p where a2: "innerPc s2 = I_tick2 p" "vars s2 = vars s"
    by (auto simp: step_def inner_step_def split: if_splits sum.splits)
  from s4(1) have nc3: "\<not> crashed s3" by (auto simp: step_def split: if_splits)
  from s3(1) a2 nc3 obtain t where a3: "innerPc s3 = I_tick3 p t" "vars s3 = vars s"
    by (auto simp: step_def inner_step_def split: if_splits sum.splits)
  from s4(1) a3 have a4: "innerPc s4 = I_tick4" "vars s4 = vars s"
    by (auto simp: step_def inner_step_def split: if_splits)
  from s4(2) a4 show ?thesis
    by (auto simp: step_def inner_step_def split: if_splits)
qed

text \<open>
  Claim C8. A tick that is handled to its end leaves \<open>prevSecond\<close> at 0 and \<open>total\<close>
  unchanged, whatever \<open>prevSecond\<close> was before: for the body of the case as a function
  (\<open>onTick\<close>), and for its statements run by the inner goroutine in the program.
\<close>

theorem tick_resets_window:
  "(onTick st = Inr (line, st') \<longrightarrow> prevSecond st' = 0 \<and> total st' = total st) \<and>
   (exec [Tick, Inner, Inner, Inner, Inner] s = Some s' \<longrightarrow>
      prevSecond (vars s') = 0 \<and> total (vars s') = total (vars s) \<and> innerPc s' = I_select)"
  using tick_steps by (auto simp: onTick_def split: sum.splits)

text \<open>C8 with \<open>total\<close> = 2000 and \<open>prevSecond\<close> = 1500 before the tick.\<close>

theorem tick_resets_window_witness:
  "onTick \<lparr>total = 2000, prevSecond = 1500\<rparr>
     = Inr (TickLine \<lparr>count = 375 / 256, desc = ''KB''\<rparr> \<lparr>count = 125 / 64, desc = ''KB''\<rparr>,
            \<lparr>total = 2000, prevSecond = 0\<rparr>)
   \<and> map_option (\<lambda>s. (vars s, innerPc s, stdout s))
       (exec [Tick, Inner, Inner, Inner, Inner]
          ((init \<lparr>chunks = [], ending = EOF\<rparr> 1)
             \<lparr>innerPc := I_select, outerPc := O_wait, vars := \<lparr>total = 2000, prevSecond = 1500\<rparr>\<rparr>))
     = Some (\<lparr>total = 2000, prevSecond = 0\<rparr>, I_select,
             [TickLine \<lparr>count = 375 / 256, desc = ''KB''\<rparr> \<lparr>count = 125 / 64, desc = ''KB''\<rparr>])"
  using tick_resets_window [of "\<lparr>total = 2000, prevSecond = 1500\<rparr>"
      "TickLine \<lparr>count = 375 / 256, desc = ''KB''\<rparr> \<lparr>count = 125 / 64, desc = ''KB''\<rparr>"
      "\<lparr>total = 2000, prevSecond = 0\<rparr>"
      "(init \<lparr>chunks = [], ending = EOF\<rparr> 1)
             \<lparr>innerPc := I_select, outerPc := O_wait, vars := \<lparr>total = 2000, prevSecond = 1500\<rparr>\<rparr>"
      "the (exec [Tick, Inner, Inner, Inner, Inner]
          ((init \<lparr>chunks = [], ending = EOF\<rparr> 1)
             \<lparr>innerPc := I_select, outerPc := O_wait, vars := \<lparr>total = 2000, prevSecond = 1500\<rparr>\<rparr>))"]
  by (simp add: run_defs onTick_def getUnits_KB)

text \<open>
  Claim C9, what the code does instead. The final summary is rendered by
  \<^verbatim>\<open>CalculateBandwidth\<close>'s own goroutine, not by the \<^verbatim>\<open>select\<close> loop: an execution
  reaches a state in which the inner goroutine stands before \<^verbatim>\<open>total += n\<close> while the
  outer one stands before \<^verbatim>\<open>getUnits(total)\<close>, and the summary printed depends on
  which of the two runs first (399.9 KB or 0 B).
\<close>

theorem summary_overlaps_byteCount:
  "map_option (\<lambda>s. (in_byteCount s, in_final s, innerPc s, outerPc s))
     (exec [Outer, Main, Main, Handoff, OsSignal, SigHandler, Outer]
        (init \<lparr>chunks = [300000, 300000, 300000], ending = EOF\<rparr> 1))
     = Some (True, True, I_add1 409500, O_final)
   \<and> map_option stdout
     (exec [Outer, Main, Main, Handoff, OsSignal, SigHandler, Outer, Inner, Outer, Outer]
        (init \<lparr>chunks = [300000, 300000, 300000], ending = EOF\<rparr> 1))
       = Some [Summary \<lparr>count = 102375 / 256, desc = ''KB''\<rparr>]
   \<and> map_option stdout
     (exec [Outer, Main, Main, Handoff, OsSignal, SigHandler, Outer, Outer, Inner, Outer]
        (init \<lparr>chunks = [300000, 300000, 300000], ending = EOF\<rparr> 1))
       = Some [Summary \<lparr>count = 0, desc = ''B''\<rparr>]"
  by (simp add: run_defs getUnits_KB getUnits_B in_byteCount_def in_final_def)

end
